theory Spec2Isabelle
  imports Complex_Main "HOL-Library.AList"
begin

section \<open>Data model of the migration graph\<close>

text \<open>
  The interchange document read by the frontend: community nodes, directed weighted links
  and the enclosing data object. Community ids are strings. A field that may be absent on
  the JavaScript object (\<^verbatim>\<open>undefined\<close>) is an \<open>option\<close>; a graph argument that may be
  \<^verbatim>\<open>null\<close> is a \<open>graph option\<close>.
\<close>

type_synonym community_id = string

record node =
  id_n :: community_id
  category :: string
  size_n :: int

record link =
  source :: community_id
  target :: community_id
  value_l :: int
  avg_time_gap :: "rat option"

record graph =
  nodes :: "node list option"
  links :: "link list option"

section \<open>findPath: breadth-first search over the directed links\<close>

text \<open>
  The adjacency \<^verbatim>\<open>Map\<close> keeps its keys in insertion order; it is an association list
  from a source id to the targets of its links, in link order.
\<close>

type_synonym adjacency = "(community_id \<times> community_id list) list"

definition add_link :: "link \<Rightarrow> adjacency \<Rightarrow> adjacency" where
  "add_link l adjacency =
     (case map_of adjacency (source l) of
        None \<Rightarrow> adjacency @ [(source l, [target l])]
      | Some ts \<Rightarrow> AList.update (source l) (ts @ [target l]) adjacency)"

definition build_adjacency :: "link list \<Rightarrow> adjacency" where
  "build_adjacency ls = fold add_link ls []"

text \<open>\<^verbatim>\<open>adjacency.get(current) || []\<close>; \<open>current\<close> is \<^verbatim>\<open>undefined\<close> for an empty path.\<close>

definition neighbors :: "adjacency \<Rightarrow> community_id option \<Rightarrow> community_id list" where
  "neighbors adjacency current =
     (case current of
        None \<Rightarrow> []
      | Some c \<Rightarrow> (case map_of adjacency c of None \<Rightarrow> [] | Some ts \<Rightarrow> ts))"

text \<open>\<^verbatim>\<open>path[path.length - 1]\<close>: \<^verbatim>\<open>undefined\<close> when the path is empty.\<close>

definition last_of :: "community_id list \<Rightarrow> community_id option" where
  "last_of path = (if path = [] then None else Some (last path))"

text \<open>The body of the loop over the neighbours of the current node.\<close>

fun visit ::
  "community_id list \<Rightarrow> community_id \<Rightarrow>
   community_id list list \<times> community_id set \<Rightarrow> community_id list list \<times> community_id set"
where
  "visit path neighbor (queue, visited) =
     (if neighbor \<notin> visited
      then (queue @ [path @ [neighbor]], insert neighbor visited)
      else (queue, visited))"

lemma fold_visit_visited_mono: "snd qv \<subseteq> snd (fold (visit path) ns qv)"
proof (induction ns arbitrary: qv)
  case Nil
  show ?case by simp
next
  case (Cons n ns)
  obtain q v where qv: "qv = (q, v)" by (cases qv)
  have "snd (visit path n qv) \<subseteq> snd (fold (visit path) ns (visit path n qv))"
    by (rule Cons.IH)
  moreover have "snd qv \<subseteq> snd (visit path n qv)"
    by (auto simp: qv)
  ultimately show ?case by auto
qed

lemma fold_visit_visited_upper: "snd (fold (visit path) ns qv) \<subseteq> snd qv \<union> set ns"
proof (induction ns arbitrary: qv)
  case Nil
  show ?case by simp
next
  case (Cons n ns)
  obtain q v where qv: "qv = (q, v)" by (cases qv)
  have "snd (fold (visit path) ns (visit path n qv)) \<subseteq> snd (visit path n qv) \<union> set ns"
    by (rule Cons.IH)
  moreover have "snd (visit path n qv) \<subseteq> snd qv \<union> {n}"
    by (auto simp: qv)
  ultimately show ?case by auto
qed

lemma fold_visit_same_visited:
  "snd (fold (visit path) ns qv) = snd qv \<Longrightarrow> fst (fold (visit path) ns qv) = fst qv"
proof (induction ns arbitrary: qv)
  case Nil
  show ?case by simp
next
  case (Cons n ns)
  obtain q v where qv: "qv = (q, v)" by (cases qv)
  have mono: "snd (visit path n qv) \<subseteq> snd (fold (visit path) ns (visit path n qv))"
    by (rule fold_visit_visited_mono)
  have step: "snd qv \<subseteq> snd (visit path n qv)"
    by (auto simp: qv)
  from Cons.prems have eq: "snd (fold (visit path) ns (visit path n qv)) = snd qv" by simp
  with mono step have same: "snd (visit path n qv) = snd qv" by auto
  then have "n \<in> v" by (auto simp: qv split: if_splits)
  then have vq: "visit path n qv = qv" by (simp add: qv)
  from Cons.IH [of "visit path n qv"] eq same
  have "fst (fold (visit path) ns (visit path n qv)) = fst (visit path n qv)" by simp
  with vq show ?case by simp
qed

definition all_targets :: "adjacency \<Rightarrow> community_id set" where
  "all_targets adjacency = (\<Union>kv \<in> set adjacency. set (snd kv))"

lemma finite_all_targets: "finite (all_targets adjacency)"
  by (simp add: all_targets_def)

lemma neighbors_subset: "set (neighbors adjacency c) \<subseteq> all_targets adjacency"
proof
  fix x assume "x \<in> set (neighbors adjacency c)"
  then obtain k ts where "map_of adjacency k = Some ts" "x \<in> set ts"
    by (cases c; cases "map_of adjacency (the c)") (auto simp: neighbors_def)
  then have "(k, ts) \<in> set adjacency" "x \<in> set (snd (k, ts))"
    by (auto dest: map_of_SomeD)
  then show "x \<in> all_targets adjacency"
    unfolding all_targets_def by blast
qed

function bfs ::
  "adjacency \<Rightarrow> community_id \<Rightarrow> community_id list list \<times> community_id set \<Rightarrow> community_id list"
where
  "bfs adjacency targetId ([], visited) = []"
| "bfs adjacency targetId (path # queue, visited) =
     (let current = last_of path in
      if current = Some targetId then path
      else bfs adjacency targetId
             (fold (visit path) (neighbors adjacency current) (queue, visited)))"
  by pat_completeness auto

termination
proof (relation "measures
    [\<lambda>(adjacency, targetId, queue, visited). card (all_targets adjacency - visited),
     \<lambda>(adjacency, targetId, queue, visited). length queue]", goal_cases)
  case 1
  show ?case by simp
next
  case (2 adjacency targetId path queue visited current)
  define r where "r = fold (visit path) (neighbors adjacency current) (queue, visited)"
  have mono: "visited \<subseteq> snd r"
    using fold_visit_visited_mono [of "(queue, visited)" path "neighbors adjacency current"]
    by (simp add: r_def)
  have fin: "finite (all_targets adjacency - visited)"
    by (simp add: finite_all_targets)
  show ?case
  proof (cases "snd r = visited")
    case True
    then have "fst r = queue"
      using fold_visit_same_visited [of path "neighbors adjacency current" "(queue, visited)"]
      by (simp add: r_def)
    with True have "r = (queue, visited)" by (cases r) simp
    then show ?thesis by (simp add: r_def [symmetric])
  next
    case False
    with mono obtain x where x: "x \<in> snd r" "x \<notin> visited" by auto
    have "snd r \<subseteq> visited \<union> set (neighbors adjacency current)"
      using fold_visit_visited_upper [of path "neighbors adjacency current" "(queue, visited)"]
      by (simp add: r_def)
    with x neighbors_subset have "x \<in> all_targets adjacency" by blast
    with x have "all_targets adjacency - snd r \<subset> all_targets adjacency - visited"
      using mono by blast
    then have "card (all_targets adjacency - snd r) < card (all_targets adjacency - visited)"
      using fin by (rule psubset_card_mono [rotated])
    then show ?thesis by (cases r) (simp add: r_def [symmetric])
  qed
qed

definition findPath :: "graph option \<Rightarrow> community_id \<Rightarrow> community_id \<Rightarrow> community_id list" where
  "findPath g sourceId targetId =
     (case g of
        None \<Rightarrow> []
      | Some gr \<Rightarrow>
          (case nodes gr of
             None \<Rightarrow> []
           | Some ns \<Rightarrow>
               (case links gr of
                  None \<Rightarrow> []
                | Some ls \<Rightarrow> bfs (build_adjacency ls) targetId ([[sourceId]], {sourceId}))))"

section \<open>calculateCentrality: betweenness approximation\<close>

text \<open>
  The scores are JavaScript numbers. A count is a small integer and a score the quotient
  of a count by the normalizer; they are modelled as exact rationals, and \<open>NaN\<close> is what
  \<^verbatim>\<open>centrality[k]++\<close> stores when \<open>k\<close> is not a key of the object
  (\<^verbatim>\<open>undefined + 1\<close>). \<open>Infinite\<close> is \<^verbatim>\<open>Infinity\<close> or \<^verbatim>\<open>-Infinity\<close>: the quotient of a
  non-zero number by zero, whose sign is that of the two operands and is not tracked here.
  The centrality object is a map from its own keys. A plain object cannot hold the key
  \<^verbatim>\<open>__proto__\<close> (an assignment to it is swallowed by the setter it inherits), so the map
  is the object only for graphs in which \<^verbatim>\<open>__proto__\<close> is no node id and no link target;
  \<open>plain_keys\<close> below says so.
\<close>

datatype jsnum = Num rat | Infinite | NaN

type_synonym centrality = "community_id \<rightharpoonup> jsnum"

definition initialize :: "node list \<Rightarrow> centrality" where
  "initialize ns = fold (\<lambda>node c. c(id_n node \<mapsto> Num 0)) ns Map.empty"

definition increment :: "community_id \<Rightarrow> centrality \<Rightarrow> centrality" where
  "increment k c =
     c(k \<mapsto> (case c k of
                 Some (Num x) \<Rightarrow> Num (x + 1)
               | Some Infinite \<Rightarrow> Infinite
               | _ \<Rightarrow> NaN))"

text \<open>\<^verbatim>\<open>for (let i = 1; i < path.length - 1; i++) centrality[path[i]]++\<close>\<close>

definition count_path :: "community_id list \<Rightarrow> centrality \<Rightarrow> centrality" where
  "count_path path c = fold (\<lambda>i. increment (path ! i)) [1..<length path - 1] c"

definition count_pair :: "graph option \<Rightarrow> node \<Rightarrow> node \<Rightarrow> centrality \<Rightarrow> centrality" where
  "count_pair g s t c =
     (if id_n s \<noteq> id_n t then count_path (findPath g (id_n s) (id_n t)) c else c)"

definition count_all :: "graph option \<Rightarrow> node list \<Rightarrow> centrality \<Rightarrow> centrality" where
  "count_all g ns c = fold (\<lambda>s. fold (\<lambda>t. count_pair g s t) ns) ns c"

definition normalizer :: "nat \<Rightarrow> rat" where
  "normalizer numNodes = (of_nat numNodes - 1) * (of_nat numNodes - 2) / 2"

text \<open>
  \<^verbatim>\<open>x / d\<close> on JavaScript numbers: \<^verbatim>\<open>0 / 0\<close> is \<^verbatim>\<open>NaN\<close> and any other number over zero
  is infinite; nothing is thrown.
\<close>

fun divide_by :: "rat \<Rightarrow> jsnum \<Rightarrow> jsnum" where
  "divide_by d (Num x) = (if d = 0 then (if x = 0 then NaN else Infinite) else Num (x / d))"
| "divide_by d Infinite = Infinite"
| "divide_by d NaN = NaN"

definition normalize_by :: "rat \<Rightarrow> centrality \<Rightarrow> centrality" where
  "normalize_by d c = (if d > 0 then (\<lambda>nodeId. map_option (divide_by d) (c nodeId)) else c)"

definition calculateCentrality :: "graph option \<Rightarrow> centrality" where
  "calculateCentrality g =
     (case g of
        None \<Rightarrow> Map.empty
      | Some gr \<Rightarrow>
          (case nodes gr of
             None \<Rightarrow> Map.empty
           | Some ns \<Rightarrow>
               (case links gr of
                  None \<Rightarrow> Map.empty
                | Some ls \<Rightarrow>
                    normalize_by (normalizer (length ns)) (count_all g ns (initialize ns)))))"

section \<open>calculateCommunityStats\<close>

text \<open>
  Link values are integers, as in the interchange document, held in JavaScript numbers:
  a value is taken to be an integer that a double represents. A sum or difference of two
  such numbers is the exact result rounded to the nearest double (53 significant bits, a
  tie to the even neighbour), exact up to \<open>2 ^ 53\<close> in absolute value and infinite from
  \<open>2 ^ 1024\<close> on. The average gap and its rounding to one decimal are computed in exact
  rationals. \<open>Inl\<close> is a thrown error: \<^verbatim>\<open>links.filter\<close> throws a \<^verbatim>\<open>TypeError\<close> when the
  graph has no \<^verbatim>\<open>links\<close>.
\<close>

datatype js_error = TypeError | Error string

datatype jsint = Intg int | PosInf | NegInf | NaN_int

fun bit_length :: "nat \<Rightarrow> nat" where
  "bit_length n = (if n = 0 then 0 else Suc (bit_length (n div 2)))"

declare bit_length.simps [simp del]

definition round_double :: "int \<Rightarrow> jsint" where
  "round_double x =
     (if \<bar>x\<bar> \<le> 2 ^ 53 then Intg x
      else
        let m = nat \<bar>x\<bar>;
            u = 2 ^ (bit_length m - 53);
            q = m div u;
            r = m mod u;
            q' = (if 2 * r > u \<or> (2 * r = u \<and> odd q) then q + 1 else q)
        in if q' * u \<ge> 2 ^ 1024 then (if x > 0 then PosInf else NegInf)
           else Intg (sgn x * int (q' * u)))"

text \<open>\<^verbatim>\<open>sum + link.value\<close>, the value being finite.\<close>

definition add_value :: "jsint \<Rightarrow> int \<Rightarrow> jsint" where
  "add_value total_so_far v =
     (case total_so_far of Intg s \<Rightarrow> round_double (s + v) | other \<Rightarrow> other)"




text \<open>\<^verbatim>\<open>links.reduce((sum, link) => sum + link.value, 0)\<close>\<close>

definition sum_value :: "link list \<Rightarrow> jsint" where
  "sum_value ls = fold (\<lambda>l sum. add_value sum (value_l l)) ls (Intg 0)"








section \<open>The data object: loadMigrationData and filterByMinFlow\<close>

record bridge =
  id_b :: community_id
  centrality_b :: rat

record data =
  graph :: "graph option"
  metadata :: "(string \<times> string) list"
  bridge_communities :: "bridge list"
  summary_stats :: "(string \<times> rat) list"

text \<open>
  The outcome of an awaited promise. \<^verbatim>\<open>fetch\<close> and \<^verbatim>\<open>response.json()\<close> are the
  environment of \<^verbatim>\<open>loadMigrationData\<close>: the response is its argument, and the parsed
  document is \<open>None\<close> when the JSON is \<^verbatim>\<open>null\<close>, on which reading \<^verbatim>\<open>data.graph\<close>
  throws; any other document without a graph object has \<open>graph = None\<close>.
\<close>

datatype 'a promise = Rejected js_error | Fulfilled 'a

record response =
  ok :: bool
  json :: "data option promise"

definition empty_structure :: data where
  "empty_structure =
     \<lparr>graph = Some \<lparr>nodes = Some [], links = Some []\<rparr>,
      metadata = [], bridge_communities = [], summary_stats = []\<rparr>"

definition valid_structure :: "data \<Rightarrow> bool" where
  "valid_structure d =
     (case graph d of
        None \<Rightarrow> False
      | Some gr \<Rightarrow> nodes gr \<noteq> None \<and> links gr \<noteq> None)"

text \<open>The body of the \<^verbatim>\<open>try\<close> block: \<open>Inl\<close> is a throw.\<close>

definition load_try :: "response promise \<Rightarrow> js_error + data" where
  "load_try fetched =
     (case fetched of
        Rejected e \<Rightarrow> Inl e
      | Fulfilled response \<Rightarrow>
          if \<not> ok response then Inl (Error ''Failed to load migration data'')
          else
            (case json response of
               Rejected e \<Rightarrow> Inl e
             | Fulfilled None \<Rightarrow> Inl TypeError
             | Fulfilled (Some d) \<Rightarrow>
                 if \<not> valid_structure d then Inl (Error ''Invalid data structure'')
                 else Inr d))"

text \<open>The \<^verbatim>\<open>catch\<close> block logs the error and returns the empty structure.\<close>

definition loadMigrationData :: "response promise \<Rightarrow> js_error + data" where
  "loadMigrationData fetched =
     (case load_try fetched of
        Inl error \<Rightarrow> Inr empty_structure
      | Inr d \<Rightarrow> Inr d)"

definition connectedNodeIds :: "link list \<Rightarrow> community_id set" where
  "connectedNodeIds filteredLinks =
     fold (\<lambda>l ids. insert (target l) (insert (source l) ids)) filteredLinks {}"

definition filterByMinFlow :: "data option \<Rightarrow> int \<Rightarrow> js_error + data option" where
  "filterByMinFlow dat minFlow =
     (case dat of
        None \<Rightarrow> Inr dat
      | Some d \<Rightarrow>
          (case graph d of
             None \<Rightarrow> Inr dat
           | Some gr \<Rightarrow>
               if minFlow \<le> 0 then Inr dat
               else
                 (case links gr of
                    None \<Rightarrow> Inl TypeError
                  | Some ls \<Rightarrow>
                      let filteredLinks = filter (\<lambda>l. value_l l \<ge> minFlow) ls in
                      (case nodes gr of
                         None \<Rightarrow> Inl TypeError
                       | Some ns \<Rightarrow>
                           let filteredNodes =
                                 filter (\<lambda>n. id_n n \<in> connectedNodeIds filteredLinks) ns
                           in Inr (Some (d\<lparr>graph :=
                                 Some \<lparr>nodes = Some filteredNodes,
                                       links = Some filteredLinks\<rparr>\<rparr>))))))"

section \<open>The analytics over an explicit store\<close>

text \<open>
  The same two functions with the objects they touch held in a store. An address is an
  index into the store; the argument \<^verbatim>\<open>graph\<close> is a reference (\<open>None\<close> for \<^verbatim>\<open>null\<close>),
  \<^verbatim>\<open>new Map()\<close> and \<^verbatim>\<open>{}\<close> allocate at the next free address, and every statement of the
  source that writes (\<^verbatim>\<open>adjacency.set\<close>, \<^verbatim>\<open>push\<close>, \<^verbatim>\<open>centrality[k] = 0\<close>,
  \<^verbatim>\<open>centrality[k]++\<close>, \<^verbatim>\<open>centrality[k] /= normalizer\<close>) is an update at the address of its
  receiver. The queue, the visited set and the paths are locals of the search loop, as in
  \<open>bfs\<close>. \<open>calculateCentrality\<close> returns the reference of the object it built.
\<close>

type_synonym addr = nat

datatype obj = Graph_obj graph | Map_obj adjacency | Object_obj centrality

type_synonym store = "obj list"

definition alloc :: "obj \<Rightarrow> store \<Rightarrow> addr \<times> store" where
  "alloc ob h = (length h, h @ [ob])"

definition lookup :: "store \<Rightarrow> addr \<Rightarrow> obj option" where
  "lookup h a = (if a < length h then Some (h ! a) else None)"

definition read_graph :: "store \<Rightarrow> addr option \<Rightarrow> graph option" where
  "read_graph h r =
     (case r of
        None \<Rightarrow> None
      | Some a \<Rightarrow> (case lookup h a of Some (Graph_obj g) \<Rightarrow> Some g | _ \<Rightarrow> None))"

definition read_map :: "store \<Rightarrow> addr \<Rightarrow> adjacency" where
  "read_map h a = (case lookup h a of Some (Map_obj adjacency) \<Rightarrow> adjacency | _ \<Rightarrow> [])"

definition read_object :: "store \<Rightarrow> addr \<Rightarrow> centrality" where
  "read_object h a = (case lookup h a of Some (Object_obj c) \<Rightarrow> c | _ \<Rightarrow> Map.empty)"

definition update_map :: "addr \<Rightarrow> (adjacency \<Rightarrow> adjacency) \<Rightarrow> store \<Rightarrow> store" where
  "update_map a f h =
     (case lookup h a of Some (Map_obj adjacency) \<Rightarrow> h[a := Map_obj (f adjacency)] | _ \<Rightarrow> h)"

definition update_object :: "addr \<Rightarrow> (centrality \<Rightarrow> centrality) \<Rightarrow> store \<Rightarrow> store" where
  "update_object a f h =
     (case lookup h a of Some (Object_obj c) \<Rightarrow> h[a := Object_obj (f c)] | _ \<Rightarrow> h)"

definition findPath_h ::
  "addr option \<Rightarrow> community_id \<Rightarrow> community_id \<Rightarrow> store \<Rightarrow> community_id list \<times> store" where
  "findPath_h graph_ref sourceId targetId h =
     (case read_graph h graph_ref of
        None \<Rightarrow> ([], h)
      | Some gr \<Rightarrow>
          (case nodes gr of
             None \<Rightarrow> ([], h)
           | Some ns \<Rightarrow>
               (case links gr of
                  None \<Rightarrow> ([], h)
                | Some ls \<Rightarrow>
                    (case alloc (Map_obj []) h of
                       (adjacency, h1) \<Rightarrow>
                         let h2 = fold (\<lambda>l. update_map adjacency (add_link l)) ls h1
                         in (bfs (read_map h2 adjacency) targetId ([[sourceId]], {sourceId}),
                             h2)))))"

definition count_pair_h :: "addr option \<Rightarrow> addr \<Rightarrow> node \<Rightarrow> node \<Rightarrow> store \<Rightarrow> store" where
  "count_pair_h graph_ref centrality s t h =
     (if id_n s \<noteq> id_n t
      then (case findPath_h graph_ref (id_n s) (id_n t) h of
              (path, h1) \<Rightarrow> update_object centrality (count_path path) h1)
      else h)"

definition calculateCentrality_h :: "addr option \<Rightarrow> store \<Rightarrow> addr \<times> store" where
  "calculateCentrality_h graph_ref h =
     (case read_graph h graph_ref of
        None \<Rightarrow> alloc (Object_obj Map.empty) h
      | Some gr \<Rightarrow>
          (case nodes gr of
             None \<Rightarrow> alloc (Object_obj Map.empty) h
           | Some ns \<Rightarrow>
               (case links gr of
                  None \<Rightarrow> alloc (Object_obj Map.empty) h
                | Some ls \<Rightarrow>
                    (case alloc (Object_obj Map.empty) h of
                       (centrality, h1) \<Rightarrow>
                         let h2 = fold (\<lambda>node. update_object centrality
                                          (\<lambda>c. c(id_n node \<mapsto> Num 0))) ns h1;
                             h3 = fold (\<lambda>s. fold (\<lambda>t. count_pair_h graph_ref centrality s t) ns)
                                    ns h2;
                             h4 = update_object centrality
                                    (normalize_by (normalizer (length ns))) h3
                         in (centrality, h4)))))"

section \<open>Vocabulary of the properties\<close>

text \<open>
  The links as a directed edge relation, directed paths as node sequences, and what of a
  graph the analytics read: the node ids and the endpoints of the links.
\<close>

definition succs :: "link list \<Rightarrow> community_id \<Rightarrow> community_id list" where
  "succs ls k = map target (filter (\<lambda>l. source l = k) ls)"

definition edge :: "link list \<Rightarrow> community_id \<Rightarrow> community_id \<Rightarrow> bool" where
  "edge ls a b = (\<exists>l \<in> set ls. source l = a \<and> target l = b)"

definition directed_path ::
  "link list \<Rightarrow> community_id \<Rightarrow> community_id \<Rightarrow> community_id list \<Rightarrow> bool" where
  "directed_path ls s t p = (p \<noteq> [] \<and> hd p = s \<and> last p = t \<and> successively (edge ls) p)"

definition shortest_to :: "link list \<Rightarrow> community_id \<Rightarrow> community_id list \<Rightarrow> bool" where
  "shortest_to ls s p =
     (directed_path ls s (last p) p \<and>
      (\<forall>w. directed_path ls s (last p) w \<longrightarrow> length p \<le> length w))"

text \<open>
  The invariant of the search loop. All queued paths are shortest paths from \<open>s\<close> with
  \<open>d\<close> or \<open>d + 1\<close> hops, in that order; every node within \<open>d\<close> hops is visited; a visited
  node that is no longer the end of a queued path has all its successors visited.
\<close>

definition bfs_inv ::
  "link list \<Rightarrow> community_id \<Rightarrow> nat \<Rightarrow> community_id list list \<Rightarrow> community_id set \<Rightarrow> bool" where
  "bfs_inv ls s d queue visited =
     ((\<forall>p \<in> set queue. shortest_to ls s p \<and> distinct p \<and> set p \<subseteq> visited \<and>
                        (length p = d + 1 \<or> length p = d + 2)) \<and>
      sorted (map length queue) \<and>
      (\<forall>w v. directed_path ls s v w \<longrightarrow> length w \<le> d + 1 \<longrightarrow> v \<in> visited) \<and>
      (\<forall>v \<in> visited. (\<exists>p \<in> set queue. last p = v) \<or> (\<forall>u. edge ls v u \<longrightarrow> u \<in> visited)))"

definition endpoints :: "link \<Rightarrow> community_id \<times> community_id" where
  "endpoints l = (source l, target l)"

definition graph_view ::
  "graph option \<Rightarrow> (community_id list \<times> (community_id \<times> community_id) list) option" where
  "graph_view g =
     (case g of
        None \<Rightarrow> None
      | Some gr \<Rightarrow>
          (case nodes gr of
             None \<Rightarrow> None
           | Some ns \<Rightarrow>
               (case links gr of
                  None \<Rightarrow> None
                | Some ls \<Rightarrow> Some (map id_n ns, map endpoints ls))))"


section \<open>Example graphs\<close>

text \<open>Concrete data on which the theorems below are instantiated.\<close>

definition nodes_AB :: "node list" where
  "nodes_AB = [\<lparr>id_n = ''A'', category = ''health'', size_n = 10\<rparr>,
               \<lparr>id_n = ''B'', category = ''health'', size_n = 20\<rparr>]"

definition nodes_ABC :: "node list" where
  "nodes_ABC = [\<lparr>id_n = ''A'', category = ''health'', size_n = 10\<rparr>,
                \<lparr>id_n = ''B'', category = ''health'', size_n = 20\<rparr>,
                \<lparr>id_n = ''C'', category = ''other'', size_n = 5\<rparr>]"

definition nodes_ABC_renamed :: "node list" where
  "nodes_ABC_renamed = [\<lparr>id_n = ''A'', category = ''games'', size_n = 1\<rparr>,
                        \<lparr>id_n = ''B'', category = ''games'', size_n = 2\<rparr>,
                        \<lparr>id_n = ''C'', category = ''games'', size_n = 3\<rparr>]"

definition nodes_ABCD :: "node list" where
  "nodes_ABCD = nodes_ABC @ [\<lparr>id_n = ''D'', category = ''other'', size_n = 0\<rparr>]"

definition link_AB :: link where
  "link_AB = \<lparr>source = ''A'', target = ''B'', value_l = 1, avg_time_gap = None\<rparr>"

definition link_BC :: link where
  "link_BC = \<lparr>source = ''B'', target = ''C'', value_l = 7, avg_time_gap = Some 2\<rparr>"

definition link_CB :: link where
  "link_CB = \<lparr>source = ''C'', target = ''B'', value_l = 5, avg_time_gap = None\<rparr>"

definition links_chain :: "link list" where
  "links_chain = [link_AB, link_BC]"

definition links_chain_reweighted :: "link list" where
  "links_chain_reweighted =
     [\<lparr>source = ''A'', target = ''B'', value_l = 40, avg_time_gap = Some 1\<rparr>,
      \<lparr>source = ''B'', target = ''C'', value_l = 50, avg_time_gap = None\<rparr>]"



definition links_two_routes :: "link list" where
  "links_two_routes =
     [\<lparr>source = ''A'', target = ''D'', value_l = 9, avg_time_gap = None\<rparr>,
      \<lparr>source = ''D'', target = ''E'', value_l = 9, avg_time_gap = None\<rparr>,
      \<lparr>source = ''E'', target = ''C'', value_l = 9, avg_time_gap = None\<rparr>,
      link_AB, link_BC]"


definition sample_data :: data where
  "sample_data =
     \<lparr>graph = Some \<lparr>nodes = Some nodes_ABCD, links = Some links_chain\<rparr>,
      metadata = [(''source'', ''sample'')], bridge_communities = [], summary_stats = []\<rparr>"

definition empty_sample :: data where
  "empty_sample =
     \<lparr>graph = Some \<lparr>nodes = Some [], links = Some []\<rparr>,
      metadata = [(''source'', ''sample'')], bridge_communities = [], summary_stats = []\<rparr>"

section \<open>The adjacency map and the loop over the neighbours\<close>

lemma set_succs: "set (succs ls k) = {b. edge ls k b}"
  by (auto simp: succs_def edge_def)

lemma neighbors_add_link:
  "neighbors (add_link l adj) (Some k) =
   neighbors adj (Some k) @ (if source l = k then [target l] else [])"
  by (cases "map_of adj (source l)")
     (auto simp: neighbors_def add_link_def update_conv' split: option.splits)

lemma neighbors_fold_add_link:
  "neighbors (fold add_link ls adj) (Some k) = neighbors adj (Some k) @ succs ls k"
proof (induction ls arbitrary: adj)
  case Nil
  show ?case by (simp add: succs_def)
next
  case (Cons l ls)
  show ?case by (simp add: Cons.IH neighbors_add_link succs_def)
qed

lemma neighbors_build_adjacency: "neighbors (build_adjacency ls) (Some k) = succs ls k"
  by (simp add: build_adjacency_def neighbors_fold_add_link) (simp add: neighbors_def)

lemma fold_visit_result:
  "\<exists>xs. fold (visit p) ns (q, V) = (q @ map (\<lambda>n. p @ [n]) xs, V \<union> set xs) \<and>
        set xs = set ns - V"
proof (induction ns arbitrary: q V)
  case Nil
  show ?case by simp
next
  case (Cons n ns)
  show ?case
  proof (cases "n \<in> V")
    case True
    from Cons.IH [of q V] obtain xs where
      "fold (visit p) ns (q, V) = (q @ map (\<lambda>n. p @ [n]) xs, V \<union> set xs)" "set xs = set ns - V"
      by blast
    with True show ?thesis by auto
  next
    case False
    from Cons.IH [of "q @ [p @ [n]]" "insert n V"] obtain xs where xs:
      "fold (visit p) ns (q @ [p @ [n]], insert n V) =
         ((q @ [p @ [n]]) @ map (\<lambda>n. p @ [n]) xs, insert n V \<union> set xs)"
      "set xs = set ns - insert n V"
      by blast
    have "fold (visit p) (n # ns) (q, V) = (q @ map (\<lambda>n. p @ [n]) (n # xs), V \<union> set (n # xs))"
      using False xs(1) by simp
    moreover have "set (n # xs) = set (n # ns) - V"
      using False xs(2) by auto
    ultimately show ?thesis by blast
  qed
qed

section \<open>Directed paths\<close>

lemma directed_path_single: "directed_path ls s v [x] \<longleftrightarrow> x = s \<and> v = s"
  by (auto simp: directed_path_def)

lemma directed_path_length1:
  assumes "directed_path ls s v w" "length w \<le> 1"
  shows "v = s"
proof -
  from assms obtain x where "w = [x]"
    by (cases w) (auto simp: directed_path_def)
  with assms show ?thesis by (simp add: directed_path_single)
qed

lemma directed_path_snoc:
  "directed_path ls s (last p) p \<Longrightarrow> edge ls (last p) n \<Longrightarrow> directed_path ls s n (p @ [n])"
  by (auto simp: directed_path_def successively_append_iff)

lemma directed_path_butlast:
  assumes "directed_path ls s v w" "length w \<ge> 2"
  shows "directed_path ls s (last (butlast w)) (butlast w) \<and> edge ls (last (butlast w)) v"
proof -
  from assms have ne: "w \<noteq> []" by (auto simp: directed_path_def)
  define w' where "w' = butlast w"
  have w: "w = w' @ [v]"
    using assms ne by (simp add: w'_def directed_path_def) (metis append_butlast_last_id)
  have ne': "w' \<noteq> []" using assms(2) w by (cases w') auto
  have "successively (edge ls) (w' @ [v])" using assms(1) w by (simp add: directed_path_def)
  then have "successively (edge ls) w'" "edge ls (last w') v"
    using ne' by (auto simp: successively_append_iff)
  moreover have "hd w' = s" using assms(1) w ne' by (simp add: directed_path_def)
  ultimately show ?thesis using ne' by (simp add: directed_path_def w'_def [symmetric])
qed

section \<open>The search invariant\<close>

lemma bfs_inv_init: "bfs_inv ls s 0 [[s]] {s}"
proof -
  have "length [s] \<le> length w" if "directed_path ls s (last [s]) w" for w
    using that by (cases w) (auto simp: directed_path_def)
  then have "shortest_to ls s [s]"
    by (simp add: shortest_to_def directed_path_single)
  moreover have "v \<in> {s}" if "directed_path ls s v w" "length w \<le> 0 + 1" for w v
    using that directed_path_length1 by auto
  ultimately show ?thesis
    unfolding bfs_inv_def by auto
qed

lemma bfs_inv_shift:
  assumes inv: "bfs_inv ls s d queue visited"
    and all: "\<forall>p \<in> set queue. length p = d + 2"
  shows "bfs_inv ls s (d + 1) queue visited"
proof -
  have reach: "v \<in> visited" if w: "directed_path ls s v w" and len: "length w \<le> d + 1 + 1" for w v
  proof (cases "length w \<le> d + 1")
    case True
    with inv w show ?thesis unfolding bfs_inv_def by blast
  next
    case False
    with len have l: "length w = d + 2" by simp
    then have "length w \<ge> 2" by simp
    from directed_path_butlast [OF w this]
    have pre: "directed_path ls s (last (butlast w)) (butlast w)"
      and e: "edge ls (last (butlast w)) v" by auto
    have lb: "length (butlast w) = d + 1" using l by simp
    with inv pre have yv: "last (butlast w) \<in> visited" unfolding bfs_inv_def by (metis le_refl)
    have "\<not> (\<exists>p \<in> set queue. last p = last (butlast w))"
    proof
      assume "\<exists>p \<in> set queue. last p = last (butlast w)"
      then obtain p where p: "p \<in> set queue" "last p = last (butlast w)" by blast
      with inv have "shortest_to ls s p" unfolding bfs_inv_def by blast
      with pre p(2) have "length p \<le> length (butlast w)" unfolding shortest_to_def by metis
      moreover from all p(1) have "length p = d + 2" by blast
      ultimately show False using lb by simp
    qed
    with inv yv have "\<forall>u. edge ls (last (butlast w)) u \<longrightarrow> u \<in> visited"
      unfolding bfs_inv_def by blast
    with e show ?thesis by blast
  qed
  show ?thesis
    unfolding bfs_inv_def
  proof (intro conjI)
    show "\<forall>p\<in>set queue. shortest_to ls s p \<and> distinct p \<and> set p \<subseteq> visited \<and>
            (length p = d + 1 + 1 \<or> length p = d + 1 + 2)"
      using inv all unfolding bfs_inv_def by auto
    show "sorted (map length queue)" using inv unfolding bfs_inv_def by blast
    show "\<forall>w v. directed_path ls s v w \<longrightarrow> length w \<le> d + 1 + 1 \<longrightarrow> v \<in> visited"
      using reach by blast
    show "\<forall>v\<in>visited. (\<exists>p\<in>set queue. last p = v) \<or> (\<forall>u. edge ls v u \<longrightarrow> u \<in> visited)"
      using inv unfolding bfs_inv_def by blast
  qed
qed

lemma bfs_inv_step:
  assumes inv: "bfs_inv ls s d (p # rest) visited"
    and len: "length p = d + 1"
    and r: "fold (visit p) (succs ls (last p)) (rest, visited) = (queue', visited')"
  shows "bfs_inv ls s d queue' visited'"
proof -
  from fold_visit_result [of p "succs ls (last p)" rest visited] r
  obtain xs where q': "queue' = rest @ map (\<lambda>n. p @ [n]) xs"
    and v': "visited' = visited \<union> set xs"
    and xs: "set xs = {b. edge ls (last p) b} - visited"
    by (auto simp: set_succs)
  from inv have p: "shortest_to ls s p" "distinct p" "set p \<subseteq> visited"
    and rest: "\<forall>q \<in> set rest. shortest_to ls s q \<and> distinct q \<and> set q \<subseteq> visited \<and>
                 (length q = d + 1 \<or> length q = d + 2)"
    and srt: "sorted (map length (p # rest))"
    and reach: "\<forall>w v. directed_path ls s v w \<longrightarrow> length w \<le> d + 1 \<longrightarrow> v \<in> visited"
    and closed: "\<forall>v \<in> visited. (\<exists>q \<in> set (p # rest). last q = v) \<or>
                   (\<forall>u. edge ls v u \<longrightarrow> u \<in> visited)"
    unfolding bfs_inv_def by auto
  have new: "shortest_to ls s (p @ [n]) \<and> distinct (p @ [n]) \<and> set (p @ [n]) \<subseteq> visited' \<and>
             length (p @ [n]) = d + 2" if n: "n \<in> set xs" for n
  proof -
    from n xs have e: "edge ls (last p) n" and nv: "n \<notin> visited" by auto
    from p(1) have dp: "directed_path ls s (last p) p" unfolding shortest_to_def by blast
    have "directed_path ls s n (p @ [n])" using dp e by (rule directed_path_snoc)
    moreover have "length (p @ [n]) \<le> length w" if "directed_path ls s n w" for w
    proof (rule ccontr)
      assume "\<not> length (p @ [n]) \<le> length w"
      then have "length w \<le> d + 1" using len by simp
      with reach that have "n \<in> visited" by blast
      with nv show False by contradiction
    qed
    ultimately have "shortest_to ls s (p @ [n])" unfolding shortest_to_def by simp
    moreover have "distinct (p @ [n])" using p(2,3) nv by auto
    moreover have "set (p @ [n]) \<subseteq> visited'" using p(3) n v' by auto
    ultimately show ?thesis using len by simp
  qed
  show ?thesis
    unfolding bfs_inv_def
  proof (intro conjI)
    show "\<forall>q\<in>set queue'. shortest_to ls s q \<and> distinct q \<and> set q \<subseteq> visited' \<and>
            (length q = d + 1 \<or> length q = d + 2)"
    proof
      fix q assume "q \<in> set queue'"
      then consider "q \<in> set rest" | n where "n \<in> set xs" "q = p @ [n]"
        unfolding q' by auto
      then show "shortest_to ls s q \<and> distinct q \<and> set q \<subseteq> visited' \<and>
            (length q = d + 1 \<or> length q = d + 2)"
      proof cases
        case 1
        with rest v' show ?thesis by blast
      next
        case 2
        with new [of n] show ?thesis by blast
      qed
    qed
    have "sorted (map length rest)" using srt by simp
    moreover have "\<forall>a \<in> set rest. \<forall>n \<in> set xs. length a \<le> length (p @ [n])"
      using rest len by auto
    ultimately show "sorted (map length queue')"
      unfolding q' by (auto simp: sorted_append comp_def map_replicate_const)
    show "\<forall>w v. directed_path ls s v w \<longrightarrow> length w \<le> d + 1 \<longrightarrow> v \<in> visited'"
      using reach v' by blast
    show "\<forall>v\<in>visited'. (\<exists>q\<in>set queue'. last q = v) \<or> (\<forall>u. edge ls v u \<longrightarrow> u \<in> visited')"
    proof
      fix v assume v: "v \<in> visited'"
      show "(\<exists>q\<in>set queue'. last q = v) \<or> (\<forall>u. edge ls v u \<longrightarrow> u \<in> visited')"
      proof (cases "v \<in> set xs")
        case True
        then have "p @ [v] \<in> set queue'" unfolding q' by auto
        then show ?thesis by force
      next
        case False
        with v v' have vv: "v \<in> visited" by blast
        show ?thesis
        proof (cases "v = last p")
          case True
          have "\<forall>u. edge ls v u \<longrightarrow> u \<in> visited'"
            using xs v' True by blast
          then show ?thesis by blast
        next
          case nl: False
          from closed vv have "(\<exists>q \<in> set (p # rest). last q = v) \<or>
                   (\<forall>u. edge ls v u \<longrightarrow> u \<in> visited)" by blast
          then show ?thesis
          proof
            assume "\<exists>q \<in> set (p # rest). last q = v"
            with nl have "\<exists>q \<in> set rest. last q = v" by auto
            then show ?thesis unfolding q' by auto
          next
            assume "\<forall>u. edge ls v u \<longrightarrow> u \<in> visited"
            then show ?thesis using v' by blast
          qed
        qed
      qed
    qed
  qed
qed

lemma bfs_inv_head_shift:
  assumes inv: "bfs_inv ls s d (p # rest) visited" and len: "length p \<noteq> d + 1"
  shows "bfs_inv ls s (d + 1) (p # rest) visited \<and> length p = d + 1 + 1"
proof -
  from inv have lp: "length p = d + 2" using len unfolding bfs_inv_def by auto
  from inv have "sorted (map length (p # rest))"
    and "\<forall>q \<in> set (p # rest). length q = d + 1 \<or> length q = d + 2"
    unfolding bfs_inv_def by auto
  then have "\<forall>q \<in> set (p # rest). length q = d + 2"
    using lp by fastforce
  from bfs_inv_shift [OF inv this] lp show ?thesis by simp
qed

lemma bfs_inv_next:
  assumes inv: "bfs_inv ls s d (p # rest) visited"
    and r: "fold (visit p) (succs ls (last p)) (rest, visited) = (queue', visited')"
  shows "\<exists>d'. bfs_inv ls s d' queue' visited'"
proof (cases "length p = d + 1")
  case True
  from bfs_inv_step [OF inv True r] show ?thesis by blast
next
  case False
  from bfs_inv_head_shift [OF inv False]
  have "bfs_inv ls s (d + 1) (p # rest) visited" "length p = d + 1 + 1" by auto
  from bfs_inv_step [OF this r] show ?thesis by blast
qed

lemma bfs_result:
  assumes "adj = build_adjacency ls" "bfs_inv ls s d (fst qv) (snd qv)" "bfs adj t qv \<noteq> []"
  shows "shortest_to ls s (bfs adj t qv) \<and> last (bfs adj t qv) = t \<and> distinct (bfs adj t qv)"
  using assms
proof (induction adj t qv arbitrary: d rule: bfs.induct)
  case (1 adjacency targetId visited)
  then show ?case by simp
next
  case (2 adjacency targetId path queue visited)
  from "2.prems"(2) have ne: "path \<noteq> []"
    unfolding bfs_inv_def shortest_to_def directed_path_def by auto
  then have lo: "last_of path = Some (last path)" by (simp add: last_of_def)
  show ?case
  proof (cases "last path = targetId")
    case True
    then have "bfs adjacency targetId (path # queue, visited) = path" by (simp add: lo)
    moreover from "2.prems"(2) have "shortest_to ls s path" "distinct path"
      unfolding bfs_inv_def by auto
    ultimately show ?thesis using True by simp
  next
    case False
    define r where "r = fold (visit path) (neighbors adjacency (last_of path)) (queue, visited)"
    have eq: "bfs adjacency targetId (path # queue, visited) = bfs adjacency targetId r"
      using False by (simp add: lo r_def)
    have r': "fold (visit path) (succs ls (last path)) (queue, visited) = (fst r, snd r)"
      by (simp add: r_def lo "2.prems"(1) neighbors_build_adjacency)
    from "2.prems"(2) have "bfs_inv ls s d (path # queue) visited" by simp
    from bfs_inv_next [OF this r'] obtain d' where d': "bfs_inv ls s d' (fst r) (snd r)" by blast
    have "shortest_to ls s (bfs adjacency targetId r) \<and> last (bfs adjacency targetId r) = targetId \<and>
          distinct (bfs adjacency targetId r)"
      using "2.IH" [of "last_of path" d'] False lo "2.prems"(1,3) d' eq
      by (simp add: r_def)
    then show ?thesis by (simp only: eq)
  qed
qed

lemma findPath_bfs:
  "findPath (Some \<lparr>nodes = Some ns, links = Some ls\<rparr>) s t =
   bfs (build_adjacency ls) t ([[s]], {s})"
  by (simp add: findPath_def)

lemma findPath_result:
  assumes "findPath (Some \<lparr>nodes = Some ns, links = Some ls\<rparr>) s t \<noteq> []"
  shows "shortest_to ls s (findPath (Some \<lparr>nodes = Some ns, links = Some ls\<rparr>) s t) \<and>
         last (findPath (Some \<lparr>nodes = Some ns, links = Some ls\<rparr>) s t) = t \<and>
         distinct (findPath (Some \<lparr>nodes = Some ns, links = Some ls\<rparr>) s t)"
proof -
  have "bfs_inv ls s 0 (fst ([[s]], {s})) (snd ([[s]], {s}))"
    by (simp add: bfs_inv_init)
  moreover from assms have "bfs (build_adjacency ls) t ([[s]], {s}) \<noteq> []"
    unfolding findPath_bfs .
  ultimately show ?thesis
    unfolding findPath_bfs by (rule bfs_result [OF refl])
qed


section \<open>Properties of findPath\<close>

text \<open>
  C3. For a graph with node and link lists, \<open>findPath\<close> from a node to itself is the
  one-element path, and when no directed path leads from \<open>a\<close> to \<open>b\<close> the result is the
  empty list. The function is total and has no error result.
\<close>

theorem findPath_same_and_unreachable:
  "findPath (Some \<lparr>nodes = Some ns, links = Some ls\<rparr>) a a = [a] \<and>
   ((\<nexists>p. directed_path ls a b p) \<longrightarrow>
      findPath (Some \<lparr>nodes = Some ns, links = Some ls\<rparr>) a b = [])"
proof
  show "findPath (Some \<lparr>nodes = Some ns, links = Some ls\<rparr>) a a = [a]"
    by (simp add: findPath_def last_of_def)
  show "(\<nexists>p. directed_path ls a b p) \<longrightarrow>
      findPath (Some \<lparr>nodes = Some ns, links = Some ls\<rparr>) a b = []"
  proof (intro impI, rule ccontr)
    assume no: "\<nexists>p. directed_path ls a b p"
      and ne: "findPath (Some \<lparr>nodes = Some ns, links = Some ls\<rparr>) a b \<noteq> []"
    from findPath_result [OF ne]
    have "directed_path ls a b (findPath (Some \<lparr>nodes = Some ns, links = Some ls\<rparr>) a b)"
      unfolding shortest_to_def by auto
    with no show False by blast
  qed
qed

theorem findPath_same_and_unreachable_witness:
  "findPath (Some \<lparr>nodes = Some nodes_AB, links = Some [link_AB]\<rparr>) ''A'' ''A'' = [''A''] \<and>
   (\<nexists>p. directed_path [link_AB] ''B'' ''A'' p) \<and>
   findPath (Some \<lparr>nodes = Some nodes_AB, links = Some [link_AB]\<rparr>) ''B'' ''A'' = []"
proof -
  have no: "\<nexists>p. directed_path [link_AB] ''B'' ''A'' p"
  proof
    assume "\<exists>p. directed_path [link_AB] ''B'' ''A'' p"
    then obtain p where p: "directed_path [link_AB] ''B'' ''A'' p" by blast
    show False
    proof (cases p)
      case Nil
      with p show False by (simp add: directed_path_def)
    next
      case (Cons x xs)
      with p have x: "x = ''B''" by (simp add: directed_path_def)
      show False
      proof (cases xs)
        case Nil
        with p Cons x show False by (simp add: directed_path_def)
      next
        case (Cons y ys)
        with p \<open>p = x # xs\<close> x have "edge [link_AB] ''B'' y" by (simp add: directed_path_def)
        then show False by (simp add: edge_def link_AB_def)
      qed
    qed
  qed
  with findPath_same_and_unreachable [of nodes_AB "[link_AB]" "''A''" "''B''"]
    findPath_same_and_unreachable [of nodes_AB "[link_AB]" "''B''" "''A''"]
  show ?thesis by blast
qed

text \<open>
  C4. For \<open>s \<noteq> t\<close>, a non-empty result of \<open>findPath\<close> starts at \<open>s\<close>, ends at \<open>t\<close>, follows
  a link from its source to its target at every step, and no directed path from \<open>s\<close> to
  \<open>t\<close> has fewer hops (a path of \<open>n\<close> nodes has \<open>n - 1\<close> hops).
\<close>

theorem findPath_shortest:
  assumes "s \<noteq> t"
    and "findPath (Some \<lparr>nodes = Some ns, links = Some ls\<rparr>) s t = p"
    and "p \<noteq> []"
  shows "hd p = s \<and> last p = t \<and>
         (\<forall>i. Suc i < length p \<longrightarrow> (\<exists>l \<in> set ls. source l = p ! i \<and> target l = p ! Suc i)) \<and>
         (\<forall>w. directed_path ls s t w \<longrightarrow> length p - 1 \<le> length w - 1)"
proof -
  from assms(2,3) have "findPath (Some \<lparr>nodes = Some ns, links = Some ls\<rparr>) s t \<noteq> []" by simp
  from findPath_result [OF this] assms(2)
  have sh: "shortest_to ls s p" and l: "last p = t" by auto
  then have dp: "directed_path ls s t p"
    and opt: "\<forall>w. directed_path ls s t w \<longrightarrow> length p \<le> length w"
    unfolding shortest_to_def by auto
  from dp have "successively (edge ls) p" "hd p = s" unfolding directed_path_def by auto
  then have "\<forall>i. Suc i < length p \<longrightarrow> edge ls (p ! i) (p ! Suc i)"
    by (simp add: successively_conv_nth)
  then have "\<forall>i. Suc i < length p \<longrightarrow> (\<exists>l \<in> set ls. source l = p ! i \<and> target l = p ! Suc i)"
    unfolding edge_def by simp
  moreover have "\<forall>w. directed_path ls s t w \<longrightarrow> length p - 1 \<le> length w - 1"
    using opt by (auto intro: diff_le_mono)
  ultimately show ?thesis using \<open>hd p = s\<close> l by blast
qed

theorem findPath_shortest_witness:
  "findPath (Some \<lparr>nodes = Some nodes_ABC, links = Some links_two_routes\<rparr>) ''A'' ''C'' =
     [''A'', ''B'', ''C''] \<and>
   directed_path links_two_routes ''A'' ''C'' [''A'', ''D'', ''E'', ''C''] \<and>
   length [''A'', ''B'', ''C''] - 1 \<le> length [''A'', ''D'', ''E'', ''C''] - 1"
proof -
  have ne: "''A'' \<noteq> ''C''" by simp
  have adj: "build_adjacency links_two_routes =
      [(''A'', [''D'', ''B'']), (''D'', [''E'']), (''E'', [''C'']), (''B'', [''C''])]"
    by (simp add: links_two_routes_def link_AB_def link_BC_def build_adjacency_def add_link_def)
  have p: "findPath (Some \<lparr>nodes = Some nodes_ABC, links = Some links_two_routes\<rparr>) ''A'' ''C'' =
      [''A'', ''B'', ''C'']"
    by (simp add: findPath_def adj neighbors_def last_of_def)
  have w: "directed_path links_two_routes ''A'' ''C'' [''A'', ''D'', ''E'', ''C'']"
    by (simp add: directed_path_def edge_def links_two_routes_def)
  from findPath_shortest [OF ne p] w
  have "length [''A'', ''B'', ''C''] - 1 \<le> length [''A'', ''D'', ''E'', ''C''] - 1"
    by blast
  with p w show ?thesis by blast
qed

section \<open>Properties of calculateCentrality\<close>









text \<open>
  C1. With at least 3 nodes every score is to lie in \<open>[0, 1]\<close>. The code normalizes "by
  number of node pairs", dividing by \<open>(n - 1) (n - 2) / 2\<close>, the number of unordered pairs
  of the other nodes, but its loop counts every ordered pair: a node between \<open>s\<close> and \<open>t\<close>
  in both directions is counted twice. With the links A\<rightarrow>B, B\<rightarrow>A, B\<rightarrow>C, C\<rightarrow>B over the nodes
  A, B, C the node B lies on the path from A to C and on the path from C to A; its count is
  2, the normalizer is 1, and its score is 2.
\<close>

theorem centrality_exceeds_one:
  "calculateCentrality
     (Some \<lparr>nodes = Some [\<lparr>id_n = ''A'', category = ''health'', size_n = 10\<rparr>,
                          \<lparr>id_n = ''B'', category = ''health'', size_n = 20\<rparr>,
                          \<lparr>id_n = ''C'', category = ''other'', size_n = 5\<rparr>],
            links = Some [\<lparr>source = ''A'', target = ''B'', value_l = 3, avg_time_gap = None\<rparr>,
                          \<lparr>source = ''B'', target = ''A'', value_l = 1, avg_time_gap = None\<rparr>,
                          \<lparr>source = ''B'', target = ''C'', value_l = 7, avg_time_gap = None\<rparr>,
                          \<lparr>source = ''C'', target = ''B'', value_l = 2, avg_time_gap = None\<rparr>]\<rparr>)
     ''B'' = Some (Num 2)"
  by (simp add: calculateCentrality_def normalizer_def normalize_by_def count_all_def
      count_pair_def count_path_def increment_def initialize_def findPath_def
      build_adjacency_def add_link_def neighbors_def last_of_def)

text \<open>
  C5. In the graph with the nodes A, B, C and the links A\<rightarrow>B and B\<rightarrow>C, \<open>findPath\<close> from A to C
  is \<open>[A, B, C]\<close>, the score of B is strictly positive and the scores of A and C are 0.
  Stated for any three distinct ids and any other field values of the nodes and links.
\<close>

theorem chain_scenario:
  assumes d: "a \<noteq> b" "a \<noteq> c" "b \<noteq> c"
    and ns: "map id_n ns = [a, b, c]"
    and ls: "map (\<lambda>l. (source l, target l)) ls = [(a, b), (b, c)]"
  shows "findPath (Some \<lparr>nodes = Some ns, links = Some ls\<rparr>) a c = [a, b, c] \<and>
         (\<exists>x. calculateCentrality (Some \<lparr>nodes = Some ns, links = Some ls\<rparr>) b = Some (Num x)
              \<and> x > 0) \<and>
         calculateCentrality (Some \<lparr>nodes = Some ns, links = Some ls\<rparr>) a = Some (Num 0) \<and>
         calculateCentrality (Some \<lparr>nodes = Some ns, links = Some ls\<rparr>) c = Some (Num 0)"
proof -
  define g where "g = Some \<lparr>nodes = Some ns, links = Some ls\<rparr>"
  from ns obtain n1 n2 n3 where ns': "ns = [n1, n2, n3]" "id_n n1 = a" "id_n n2 = b" "id_n n3 = c"
    by (auto simp: map_eq_Cons_conv)
  from ls obtain l1 l2 where ls': "ls = [l1, l2]" "source l1 = a" "target l1 = b" "source l2 = b" "target l2 = c"
    by (auto simp: map_eq_Cons_conv)
  have adj: "build_adjacency ls = [(a, [b]), (b, [c])]"
    using d by (simp add: ls' build_adjacency_def add_link_def)
  have p: "\<And>s t. findPath g s t = bfs [(a, [b]), (b, [c])] t ([[s]], {s})"
    by (simp add: g_def findPath_def adj)
  have bfs_ac: "bfs [(a, [b]), (b, [c])] c ([[a]], {a}) = [a,b,c]"
    using d by (simp add: neighbors_def last_of_def)
  have bfs_ab: "bfs [(a, [b]), (b, [c])] b ([[a]], {a}) = [a,b]"
    using d by (simp add: neighbors_def last_of_def)
  have bfs_ba: "bfs [(a, [b]), (b, [c])] a ([[b]], {b}) = []"
    using d by (simp add: neighbors_def last_of_def)
  have bfs_bc: "bfs [(a, [b]), (b, [c])] c ([[b]], {b}) = [b, c]"
    using d by (simp add: neighbors_def last_of_def)
  have bfs_ca: "bfs [(a, [b]), (b, [c])] a ([[c]], {c}) = []"
    using d by (simp add: neighbors_def last_of_def)
  have bfs_cb: "bfs [(a, [b]), (b, [c])] b ([[c]], {c}) = []"
    using d by (simp add: neighbors_def last_of_def)
  note bfs = bfs_ac bfs_ab bfs_ba bfs_bc bfs_ca bfs_cb
  have cnt: "count_all g ns (initialize ns) = [a \<mapsto> Num 0, b \<mapsto> Num 1, c \<mapsto> Num 0]"
    using d unfolding count_all_def ns'
    by (simp add: count_pair_def ns'(2-) p bfs count_path_def initialize_def increment_def fun_upd_twist
          del: bfs.simps)
  have nrm: "normalizer (length ns) = 1" by (simp add: ns' normalizer_def)
  have cc: "calculateCentrality g = normalize_by 1 [a \<mapsto> Num 0, b \<mapsto> Num 1, c \<mapsto> Num 0]"
  proof -
    have "calculateCentrality g = normalize_by (normalizer (length ns)) (count_all g ns (initialize ns))"
      by (simp add: calculateCentrality_def g_def)
    then show ?thesis by (simp only: cnt nrm)
  qed
  show ?thesis
    unfolding g_def [symmetric] using d by (simp add: p bfs cc normalize_by_def del: bfs.simps)
qed

theorem chain_scenario_witness:
  "findPath (Some \<lparr>nodes = Some nodes_ABC, links = Some links_chain\<rparr>) ''A'' ''C'' =
     [''A'', ''B'', ''C''] \<and>
   (\<exists>x. calculateCentrality (Some \<lparr>nodes = Some nodes_ABC, links = Some links_chain\<rparr>) ''B'' =
          Some (Num x) \<and> x > 0) \<and>
   calculateCentrality (Some \<lparr>nodes = Some nodes_ABC, links = Some links_chain\<rparr>) ''A'' =
     Some (Num 0) \<and>
   calculateCentrality (Some \<lparr>nodes = Some nodes_ABC, links = Some links_chain\<rparr>) ''C'' =
     Some (Num 0)"
proof -
  have "''A'' \<noteq> ''B''" "''A'' \<noteq> ''C''" "''B'' \<noteq> ''C''" by simp_all
  then show ?thesis
    by (rule chain_scenario)
       (simp_all add: nodes_ABC_def links_chain_def link_AB_def link_BC_def)
qed



section \<open>Determinism and the frame of the analytics\<close>

lemma fold_cong_map:
  assumes "map e xs = map e ys" and "\<And>x y. e x = e y \<Longrightarrow> f x = f' y"
  shows "fold f xs = fold f' ys"
  using assms(1)
proof (induction xs arbitrary: ys)
  case Nil
  then show ?case by simp
next
  case (Cons x xs)
  then obtain y ys' where ys: "ys = y # ys'" "e x = e y" "map e xs = map e ys'"
    by (cases ys) auto
  from Cons.IH [OF ys(3)] assms(2) [OF ys(2)] show ?case
    by (simp add: ys(1))
qed

lemma add_link_endpoints: "endpoints l = endpoints l' \<Longrightarrow> add_link l = add_link l'"
proof -
  assume "endpoints l = endpoints l'"
  then have "source l = source l'" "target l = target l'"
    by (simp_all add: endpoints_def)
  then show ?thesis by (simp add: add_link_def fun_eq_iff split: option.splits)
qed

lemma build_adjacency_endpoints:
  "map endpoints ls = map endpoints ls' \<Longrightarrow> build_adjacency ls = build_adjacency ls'"
  unfolding build_adjacency_def
  using fold_cong_map [of endpoints ls ls' add_link add_link] add_link_endpoints by metis

lemma findPath_view:
  assumes "graph_view g = graph_view g'"
  shows "findPath g s t = findPath g' s t"
proof (cases "graph_view g")
  case None
  with assms have "graph_view g' = None" by simp
  with None show ?thesis
    by (auto simp: graph_view_def findPath_def split: option.splits)
next
  case (Some v)
  then obtain gr ns ls where g: "g = Some gr" "nodes gr = Some ns" "links gr = Some ls"
    by (auto simp: graph_view_def split: option.splits)
  from Some assms obtain gr' ns' ls' where
    g': "g' = Some gr'" "nodes gr' = Some ns'" "links gr' = Some ls'"
    by (auto simp: graph_view_def split: option.splits)
  from assms have "map endpoints ls = map endpoints ls'"
    by (simp add: graph_view_def g g')
  then have "build_adjacency ls = build_adjacency ls'"
    by (rule build_adjacency_endpoints)
  then show ?thesis by (simp add: findPath_def g g')
qed

text \<open>
  C7. The two analytics are functions of their arguments: the source reads no random
  number, clock or other ambient state, and the \<^verbatim>\<open>Map\<close>, \<^verbatim>\<open>Set\<close> and array iterations it
  uses run in insertion order. Two evaluations on graphs that agree on the node ids and on
  the endpoints of the links, in order, give equal paths and equal centrality mappings;
  two evaluations on the same graph are the case \<open>g' = g\<close>.
\<close>

theorem analytics_deterministic:
  assumes "graph_view g = graph_view g'"
  shows "findPath g s t = findPath g' s t \<and> calculateCentrality g = calculateCentrality g'"
proof
  show "findPath g s t = findPath g' s t"
    using assms by (rule findPath_view)
  show "calculateCentrality g = calculateCentrality g'"
  proof (cases "graph_view g")
    case None
    with assms have "graph_view g' = None" by simp
    with None show ?thesis
      by (auto simp: graph_view_def calculateCentrality_def split: option.splits)
  next
    case (Some v)
    then obtain gr ns ls where g: "g = Some gr" "nodes gr = Some ns" "links gr = Some ls"
      by (auto simp: graph_view_def split: option.splits)
    from Some assms obtain gr' ns' ls' where
      g': "g' = Some gr'" "nodes gr' = Some ns'" "links gr' = Some ls'"
      by (auto simp: graph_view_def split: option.splits)
    from assms have ids: "map id_n ns = map id_n ns'"
      by (simp add: graph_view_def g g')
    then have len: "length ns = length ns'" by (rule map_eq_imp_length_eq)
    have init: "initialize ns = initialize ns'"
      unfolding initialize_def
      using fold_cong_map [OF ids, of "\<lambda>node c. c(id_n node \<mapsto> Num 0)" "\<lambda>node c. c(id_n node \<mapsto> Num 0)"]
      by simp
    have pair: "count_pair g x y = count_pair g' x' y'" if "id_n x = id_n x'" "id_n y = id_n y'"
      for x y x' y' :: node
      using that findPath_view [OF assms] by (simp add: count_pair_def fun_eq_iff)
    have inner: "fold (\<lambda>t. count_pair g x t) ns = fold (\<lambda>t. count_pair g' x' t) ns'"
      if "id_n x = id_n x'" for x x' :: node
      using ids
    proof (rule fold_cong_map)
      fix y y' :: node assume "id_n y = id_n y'"
      with that show "count_pair g x y = count_pair g' x' y'" by (rule pair)
    qed
    have "fold (\<lambda>s. fold (\<lambda>t. count_pair g s t) ns) ns =
          fold (\<lambda>s. fold (\<lambda>t. count_pair g' s t) ns') ns'"
      using ids
    proof (rule fold_cong_map)
      fix x x' :: node assume "id_n x = id_n x'"
      then show "fold (\<lambda>t. count_pair g x t) ns = fold (\<lambda>t. count_pair g' x' t) ns'"
        by (rule inner)
    qed
    then have counts: "count_all g ns (initialize ns) = count_all g' ns' (initialize ns')"
      by (simp add: count_all_def init)
    have "calculateCentrality g =
            normalize_by (normalizer (length ns)) (count_all g ns (initialize ns))"
      by (simp add: calculateCentrality_def g)
    moreover have "calculateCentrality g' =
            normalize_by (normalizer (length ns')) (count_all g' ns' (initialize ns'))"
      by (simp add: calculateCentrality_def g')
    ultimately show ?thesis by (simp only: counts len)
  qed
qed

theorem analytics_deterministic_witness:
  "findPath (Some \<lparr>nodes = Some nodes_ABC, links = Some links_chain\<rparr>) ''A'' ''C'' =
   findPath (Some \<lparr>nodes = Some nodes_ABC_renamed, links = Some links_chain_reweighted\<rparr>)
     ''A'' ''C'' \<and>
   calculateCentrality (Some \<lparr>nodes = Some nodes_ABC, links = Some links_chain\<rparr>) =
   calculateCentrality
     (Some \<lparr>nodes = Some nodes_ABC_renamed, links = Some links_chain_reweighted\<rparr>)"
  by (rule analytics_deterministic)
     (simp add: graph_view_def endpoints_def nodes_ABC_def nodes_ABC_renamed_def links_chain_def
        links_chain_reweighted_def link_AB_def link_BC_def)

lemma update_map_at_length:
  "update_map (length h) f (h @ Map_obj adj # xs) = h @ Map_obj (f adj) # xs"
  by (simp add: update_map_def lookup_def)

lemma update_object_at_length:
  "update_object (length h) f (h @ Object_obj c # xs) = h @ Object_obj (f c) # xs"
  by (simp add: update_object_def lookup_def)

lemma fold_update_map:
  "fold (\<lambda>l. update_map (length h) (add_link l)) ls (h @ [Map_obj adj]) =
   h @ [Map_obj (fold add_link ls adj)]"
  by (induction ls arbitrary: adj) (simp_all add: update_map_at_length)

lemma fold_update_zero:
  "fold (\<lambda>node. update_object (length h) (\<lambda>c. c(id_n node \<mapsto> Num 0))) ns (h @ [Object_obj c]) =
   h @ [Object_obj (fold (\<lambda>node c. c(id_n node \<mapsto> Num 0)) ns c)]"
  by (induction ns arbitrary: c) (simp_all add: update_object_at_length)

lemma read_graph_append:
  "read_graph h r = Some gr \<Longrightarrow> read_graph (h @ xs) r = Some gr"
  by (auto simp: read_graph_def lookup_def nth_append split: option.splits obj.splits if_splits)

lemma findPath_h_eq:
  "\<exists>xs. findPath_h r s t h = (findPath (read_graph h r) s t, h @ xs)"
proof (cases "\<exists>gr ns ls. read_graph h r = Some gr \<and> nodes gr = Some ns \<and> links gr = Some ls")
  case True
  then obtain gr ns ls where g: "read_graph h r = Some gr" "nodes gr = Some ns" "links gr = Some ls"
    by blast
  have "findPath_h r s t h =
        (bfs (build_adjacency ls) t ([[s]], {s}), h @ [Map_obj (build_adjacency ls)])"
    by (simp add: findPath_h_def g alloc_def fold_update_map read_map_def lookup_def
        build_adjacency_def del: bfs.simps)
  moreover have "findPath (read_graph h r) s t = bfs (build_adjacency ls) t ([[s]], {s})"
    by (simp add: findPath_def g)
  ultimately show ?thesis by simp
next
  case False
  then have "findPath_h r s t h = ([], h)" "findPath (read_graph h r) s t = []"
    by (auto simp: findPath_h_def findPath_def split: option.splits)
  then show ?thesis by simp
qed

lemma count_pair_h_eq:
  assumes "read_graph h r = Some gr"
  shows "\<exists>ys. count_pair_h r (length h) x y (h @ Object_obj c # xs) =
              h @ Object_obj (count_pair (Some gr) x y c) # ys"
proof (cases "id_n x \<noteq> id_n y")
  case True
  define H where "H = h @ Object_obj c # xs"
  have rg: "read_graph H r = Some gr"
    unfolding H_def using assms by (rule read_graph_append)
  from findPath_h_eq [of r "id_n x" "id_n y" H] obtain zs where
    "findPath_h r (id_n x) (id_n y) H = (findPath (Some gr) (id_n x) (id_n y), H @ zs)"
    by (auto simp: rg)
  then have "count_pair_h r (length h) x y H =
        update_object (length h) (count_path (findPath (Some gr) (id_n x) (id_n y)))
          (h @ Object_obj c # (xs @ zs))"
    using True by (simp add: count_pair_h_def H_def)
  also have "\<dots> = h @ Object_obj (count_path (findPath (Some gr) (id_n x) (id_n y)) c) # (xs @ zs)"
    by (rule update_object_at_length)
  finally show ?thesis
    using True unfolding H_def count_pair_def by auto
next
  case False
  then show ?thesis by (simp add: count_pair_h_def count_pair_def)
qed

lemma fold_count_pair_h_eq:
  assumes "read_graph h r = Some gr"
  shows "\<exists>ys. fold (\<lambda>t. count_pair_h r (length h) x t) ts (h @ Object_obj c # xs) =
              h @ Object_obj (fold (\<lambda>t. count_pair (Some gr) x t) ts c) # ys"
proof (induction ts arbitrary: c xs)
  case Nil
  show ?case by simp
next
  case (Cons t ts)
  from count_pair_h_eq [OF assms, of x t c xs] obtain ys where
    "count_pair_h r (length h) x t (h @ Object_obj c # xs) =
       h @ Object_obj (count_pair (Some gr) x t c) # ys" by blast
  with Cons.IH [of "count_pair (Some gr) x t c" ys] show ?case by simp
qed

lemma count_all_h_eq:
  assumes "read_graph h r = Some gr"
  shows "\<exists>ys. fold (\<lambda>s. fold (\<lambda>t. count_pair_h r (length h) s t) ts) ss (h @ Object_obj c # xs) =
              h @ Object_obj (fold (\<lambda>s. fold (\<lambda>t. count_pair (Some gr) s t) ts) ss c) # ys"
proof (induction ss arbitrary: c xs)
  case Nil
  show ?case by simp
next
  case (Cons s ss)
  from fold_count_pair_h_eq [OF assms, of s ts c xs] obtain ys where
    "fold (\<lambda>t. count_pair_h r (length h) s t) ts (h @ Object_obj c # xs) =
       h @ Object_obj (fold (\<lambda>t. count_pair (Some gr) s t) ts c) # ys" by blast
  with Cons.IH [of "fold (\<lambda>t. count_pair (Some gr) s t) ts c" ys] show ?case by simp
qed

lemma calculateCentrality_h_eq:
  "\<exists>ys. calculateCentrality_h r h =
          (length h, h @ Object_obj (calculateCentrality (read_graph h r)) # ys)"
proof (cases "\<exists>gr ns ls. read_graph h r = Some gr \<and> nodes gr = Some ns \<and> links gr = Some ls")
  case True
  then obtain gr ns ls where g: "read_graph h r = Some gr" "nodes gr = Some ns" "links gr = Some ls"
    by blast
  from count_all_h_eq [OF g(1), of ns ns "initialize ns" "[]"] obtain ys where
    ys: "fold (\<lambda>s. fold (\<lambda>t. count_pair_h r (length h) s t) ns) ns
           (h @ [Object_obj (initialize ns)]) =
         h @ Object_obj (count_all (Some gr) ns (initialize ns)) # ys"
    by (auto simp: count_all_def)
  have "calculateCentrality_h r h =
        (length h,
         h @ Object_obj (normalize_by (normalizer (length ns))
                (count_all (Some gr) ns (initialize ns))) # ys)"
    by (simp add: calculateCentrality_h_def g alloc_def fold_update_zero
        initialize_def [symmetric] ys update_object_at_length)
  moreover have "calculateCentrality (read_graph h r) =
      normalize_by (normalizer (length ns)) (count_all (Some gr) ns (initialize ns))"
    by (simp add: calculateCentrality_def g)
  ultimately show ?thesis by simp
next
  case False
  then have "calculateCentrality_h r h = (length h, h @ [Object_obj Map.empty])"
    "calculateCentrality (read_graph h r) = Map.empty"
    by (auto simp: calculateCentrality_h_def calculateCentrality_def alloc_def split: option.splits)
  then show ?thesis by simp
qed

text \<open>
  C8. Run over the store, \<open>findPath\<close> and \<open>calculateCentrality\<close> leave the graph object as
  it was: the graph read through the reference after the call is the graph read before it,
  with its node and link lists and every record in them. Moreover every object that was in
  the store before the call is unchanged: the adjacency map and the centrality object are
  allocated behind them, and all writes go there. The results are those of the functions
  above.
\<close>

theorem analytics_leave_graph_unchanged:
  assumes "read_graph h r = Some g"
  shows "read_graph (snd (findPath_h r s t h)) r = Some g \<and>
         take (length h) (snd (findPath_h r s t h)) = h \<and>
         fst (findPath_h r s t h) = findPath (Some g) s t \<and>
         read_graph (snd (calculateCentrality_h r h)) r = Some g \<and>
         take (length h) (snd (calculateCentrality_h r h)) = h \<and>
         read_object (snd (calculateCentrality_h r h)) (fst (calculateCentrality_h r h)) =
           calculateCentrality (Some g)"
proof -
  obtain xs where f: "findPath_h r s t h = (findPath (Some g) s t, h @ xs)"
    using findPath_h_eq [of r s t h] assms by auto
  obtain ys where c: "calculateCentrality_h r h =
      (length h, h @ Object_obj (calculateCentrality (Some g)) # ys)"
    using calculateCentrality_h_eq [of r h] assms by auto
  have "read_graph (h @ xs) r = Some g"
    "read_graph (h @ Object_obj (calculateCentrality (Some g)) # ys) r = Some g"
    using assms by (rule read_graph_append)+
  then show ?thesis
    by (simp add: f c read_object_def lookup_def)
qed

theorem analytics_leave_graph_unchanged_witness:
  "read_graph
     (snd (findPath_h (Some 0) ''A'' ''C''
             [Graph_obj \<lparr>nodes = Some nodes_ABC, links = Some links_chain\<rparr>])) (Some 0) =
     Some \<lparr>nodes = Some nodes_ABC, links = Some links_chain\<rparr> \<and>
   read_graph
     (snd (calculateCentrality_h (Some 0)
             [Graph_obj \<lparr>nodes = Some nodes_ABC, links = Some links_chain\<rparr>])) (Some 0) =
     Some \<lparr>nodes = Some nodes_ABC, links = Some links_chain\<rparr> \<and>
   fst (findPath_h (Some 0) ''A'' ''C''
          [Graph_obj \<lparr>nodes = Some nodes_ABC, links = Some links_chain\<rparr>]) =
     findPath (Some \<lparr>nodes = Some nodes_ABC, links = Some links_chain\<rparr>) ''A'' ''C''"
proof -
  have "read_graph [Graph_obj \<lparr>nodes = Some nodes_ABC, links = Some links_chain\<rparr>] (Some 0) =
        Some \<lparr>nodes = Some nodes_ABC, links = Some links_chain\<rparr>"
    by (simp add: read_graph_def lookup_def)
  from analytics_leave_graph_unchanged [OF this] show ?thesis by blast
qed

section \<open>Properties of calculateCommunityStats\<close>

lemma round_double_exact: "\<bar>x\<bar> \<le> 2 ^ 53 \<Longrightarrow> round_double x = Intg x"
  by (simp add: round_double_def)




text \<open>
  The rounding at work: the sum of \<open>2 ^ 53\<close>, 1 and 1, added in this order, is \<open>2 ^ 53\<close>.
\<close>

lemma bit_length_0: "bit_length 0 = 0"
  by (simp add: bit_length.simps)

lemma bit_length_pos: "0 < n \<Longrightarrow> bit_length n = Suc (bit_length (n div 2))"
  by (subst bit_length.simps) simp

lemma round_double_tie: "round_double 9007199254740993 = Intg 9007199254740992"
  by (simp add: round_double_def Let_def bit_length_pos bit_length_0)

lemma sum_value_rounds:
  "sum_value [\<lparr>source = ''A'', target = ''B'', value_l = 9007199254740992, avg_time_gap = None\<rparr>,
              \<lparr>source = ''C'', target = ''B'', value_l = 1, avg_time_gap = None\<rparr>,
              \<lparr>source = ''D'', target = ''B'', value_l = 1, avg_time_gap = None\<rparr>] =
   Intg 9007199254740992"
proof -
  have "round_double 9007199254740992 = Intg 9007199254740992"
    by (rule round_double_exact) simp
  then show ?thesis
    by (simp add: sum_value_def add_value_def round_double_tie)
qed






section \<open>Properties of filterByMinFlow and loadMigrationData\<close>

lemma connectedNodeIds_fold:
  "fold (\<lambda>l ids. insert (target l) (insert (source l) ids)) ls a =
   a \<union> source ` set ls \<union> target ` set ls"
  by (induction ls arbitrary: a) auto

lemma connectedNodeIds_set: "connectedNodeIds ls = source ` set ls \<union> target ` set ls"
  by (simp add: connectedNodeIds_def connectedNodeIds_fold)

text \<open>
  C10. For a data object whose graph has node and link lists and a threshold
  \<open>minFlow > 0\<close>, the result carries the links of value at least \<open>minFlow\<close> and exactly
  those nodes that are the source or target of a retained link, so a node without a
  retained connection is dropped; the other fields of the data object are kept. For
  \<open>minFlow \<le> 0\<close>, a null data object or a missing graph, the argument is returned as it is.
\<close>

theorem filterByMinFlow_connected:
  "(minFlow > 0 \<and> graph d = Some gr \<and> nodes gr = Some ns \<and> links gr = Some ls \<longrightarrow>
      (\<exists>ns' ls'.
         filterByMinFlow (Some d) minFlow =
           Inr (Some (d\<lparr>graph := Some \<lparr>nodes = Some ns', links = Some ls'\<rparr>\<rparr>)) \<and>
         ls' = filter (\<lambda>l. value_l l \<ge> minFlow) ls \<and>
         ns' = filter (\<lambda>n. \<exists>l \<in> set ls'. source l = id_n n \<or> target l = id_n n) ns \<and>
         (\<forall>l \<in> set ls'. value_l l \<ge> minFlow) \<and>
         (\<forall>n \<in> set ns'. \<exists>l \<in> set ls'. source l = id_n n \<or> target l = id_n n))) \<and>
   (minFlow \<le> 0 \<or> dat = None \<or> (\<exists>d0. dat = Some d0 \<and> graph d0 = None) \<longrightarrow>
      filterByMinFlow dat minFlow = Inr dat)"
proof (intro conjI impI)
  assume a: "minFlow > 0 \<and> graph d = Some gr \<and> nodes gr = Some ns \<and> links gr = Some ls"
  define ls' where "ls' = filter (\<lambda>l. value_l l \<ge> minFlow) ls"
  define ns' where "ns' = filter (\<lambda>n. id_n n \<in> connectedNodeIds ls') ns"
  have "filterByMinFlow (Some d) minFlow =
          Inr (Some (d\<lparr>graph := Some \<lparr>nodes = Some ns', links = Some ls'\<rparr>\<rparr>))"
    using a by (simp add: filterByMinFlow_def ls'_def ns'_def Let_def)
  moreover have "\<forall>l \<in> set ls'. value_l l \<ge> minFlow"
    by (simp add: ls'_def)
  moreover have "id_n n \<in> connectedNodeIds ls' \<longleftrightarrow>
      (\<exists>l \<in> set ls'. source l = id_n n \<or> target l = id_n n)" for n :: node
    unfolding connectedNodeIds_set by (simp add: image_iff) metis
  then have eq: "ns' = filter (\<lambda>n. \<exists>l \<in> set ls'. source l = id_n n \<or> target l = id_n n) ns"
    by (simp add: ns'_def)
  moreover have "\<forall>n \<in> set ns'. \<exists>l \<in> set ls'. source l = id_n n \<or> target l = id_n n"
  proof
    fix n assume "n \<in> set ns'"
    then have "n \<in> set (filter (\<lambda>n. \<exists>l \<in> set ls'. source l = id_n n \<or> target l = id_n n) ns)"
      using eq by simp
    then show "\<exists>l \<in> set ls'. source l = id_n n \<or> target l = id_n n" by simp
  qed
  ultimately show "\<exists>ns' ls'.
         filterByMinFlow (Some d) minFlow =
           Inr (Some (d\<lparr>graph := Some \<lparr>nodes = Some ns', links = Some ls'\<rparr>\<rparr>)) \<and>
         ls' = filter (\<lambda>l. value_l l \<ge> minFlow) ls \<and>
         ns' = filter (\<lambda>n. \<exists>l \<in> set ls'. source l = id_n n \<or> target l = id_n n) ns \<and>
         (\<forall>l \<in> set ls'. value_l l \<ge> minFlow) \<and>
         (\<forall>n \<in> set ns'. \<exists>l \<in> set ls'. source l = id_n n \<or> target l = id_n n)"
    using ls'_def by blast
next
  assume "minFlow \<le> 0 \<or> dat = None \<or> (\<exists>d0. dat = Some d0 \<and> graph d0 = None)"
  then show "filterByMinFlow dat minFlow = Inr dat"
    by (auto simp: filterByMinFlow_def split: option.splits)
qed

theorem filterByMinFlow_connected_witness:
  "filterByMinFlow (Some sample_data) 2 =
     Inr (Some (sample_data\<lparr>graph :=
       Some \<lparr>nodes = Some [\<lparr>id_n = ''B'', category = ''health'', size_n = 20\<rparr>,
                           \<lparr>id_n = ''C'', category = ''other'', size_n = 5\<rparr>],
             links = Some [link_BC]\<rparr>\<rparr>))"
proof -
  have "(2::int) > 0 \<and>
        graph sample_data = Some \<lparr>nodes = Some nodes_ABCD, links = Some links_chain\<rparr> \<and>
        nodes \<lparr>nodes = Some nodes_ABCD, links = Some links_chain\<rparr> = Some nodes_ABCD \<and>
        links \<lparr>nodes = Some nodes_ABCD, links = Some links_chain\<rparr> = Some links_chain"
    by (simp add: sample_data_def)
  with filterByMinFlow_connected
    [of 2 sample_data "\<lparr>nodes = Some nodes_ABCD, links = Some links_chain\<rparr>"
        nodes_ABCD links_chain None]
  obtain ns' ls' where r:
    "filterByMinFlow (Some sample_data) 2 =
       Inr (Some (sample_data\<lparr>graph := Some \<lparr>nodes = Some ns', links = Some ls'\<rparr>\<rparr>))"
    and ls': "ls' = filter (\<lambda>l. value_l l \<ge> 2) links_chain"
    and ns': "ns' = filter (\<lambda>n. \<exists>l \<in> set ls'. source l = id_n n \<or> target l = id_n n) nodes_ABCD"
    by blast
  from ls' have l: "ls' = [link_BC]"
    by (simp add: links_chain_def link_AB_def link_BC_def)
  from ns' have "ns' = [\<lparr>id_n = ''B'', category = ''health'', size_n = 20\<rparr>,
                        \<lparr>id_n = ''C'', category = ''other'', size_n = 5\<rparr>]"
    unfolding l by (simp add: nodes_ABCD_def nodes_ABC_def link_BC_def)
  with r l show ?thesis by simp
qed

text \<open>
  C2. The claim is that a load which yields no usable data fails with an error surfaced
  to the caller. The \<^verbatim>\<open>catch\<close> block does the opposite on purpose: when the response is
  not ok, the body of the \<^verbatim>\<open>try\<close> throws and the function returns the empty structure
  as an ordinary value.
\<close>

theorem loadMigrationData_swallows_failure:
  "load_try (Fulfilled \<lparr>ok = False, json = Rejected TypeError\<rparr>) =
     Inl (Error ''Failed to load migration data'') \<and>
   loadMigrationData (Fulfilled \<lparr>ok = False, json = Rejected TypeError\<rparr>) =
     Inr \<lparr>graph = Some \<lparr>nodes = Some [], links = Some []\<rparr>,
          metadata = [], bridge_communities = [], summary_stats = []\<rparr>"
  by (simp add: loadMigrationData_def load_try_def empty_structure_def)

text \<open>
  C2, as the code has it. \<open>loadMigrationData\<close> never fails: whatever the fetch delivers,
  it returns a document. When the fetch is rejected, the response is not ok, reading the
  JSON is rejected, the JSON is \<^verbatim>\<open>null\<close>, or the document lacks its graph, its nodes or
  its links, the document returned is the empty structure (a graph with no nodes and no
  links, empty metadata, bridge communities and summary statistics). When the response is
  ok and the document has a graph with node and link lists, the document is returned as it
  is, also when these lists are empty.
\<close>

theorem loadMigrationData_never_fails:
  "loadMigrationData (Rejected e) = Inr empty_structure \<and>
   (\<not> ok r \<longrightarrow> loadMigrationData (Fulfilled r) = Inr empty_structure) \<and>
   (ok r \<and> json r = Rejected e \<longrightarrow> loadMigrationData (Fulfilled r) = Inr empty_structure) \<and>
   (ok r \<and> json r = Fulfilled None \<longrightarrow> loadMigrationData (Fulfilled r) = Inr empty_structure) \<and>
   (ok r \<and> json r = Fulfilled (Some d) \<and> graph d = None \<longrightarrow>
      loadMigrationData (Fulfilled r) = Inr empty_structure) \<and>
   (ok r \<and> json r = Fulfilled (Some d) \<and> graph d = Some gr \<and>
    (nodes gr = None \<or> links gr = None) \<longrightarrow>
      loadMigrationData (Fulfilled r) = Inr empty_structure) \<and>
   (ok r \<and> json r = Fulfilled (Some d) \<and> graph d = Some gr \<and>
    nodes gr = Some ns \<and> links gr = Some ls \<longrightarrow>
      loadMigrationData (Fulfilled r) = Inr d) \<and>
   (\<exists>d'. loadMigrationData fetched = Inr d') \<and>
   empty_structure =
     \<lparr>graph = Some \<lparr>nodes = Some [], links = Some []\<rparr>,
      metadata = [], bridge_communities = [], summary_stats = []\<rparr>"
proof (intro conjI impI)
  show "loadMigrationData (Rejected e) = Inr empty_structure"
    by (simp add: loadMigrationData_def load_try_def)
  show "loadMigrationData (Fulfilled r) = Inr empty_structure" if "\<not> ok r"
    using that by (simp add: loadMigrationData_def load_try_def)
  show "loadMigrationData (Fulfilled r) = Inr empty_structure" if "ok r \<and> json r = Rejected e"
    using that by (simp add: loadMigrationData_def load_try_def)
  show "loadMigrationData (Fulfilled r) = Inr empty_structure" if "ok r \<and> json r = Fulfilled None"
    using that by (simp add: loadMigrationData_def load_try_def)
  show "loadMigrationData (Fulfilled r) = Inr empty_structure"
    if "ok r \<and> json r = Fulfilled (Some d) \<and> graph d = None"
    using that by (simp add: loadMigrationData_def load_try_def valid_structure_def)
  show "loadMigrationData (Fulfilled r) = Inr empty_structure"
    if "ok r \<and> json r = Fulfilled (Some d) \<and> graph d = Some gr \<and>
        (nodes gr = None \<or> links gr = None)"
    using that by (auto simp: loadMigrationData_def load_try_def valid_structure_def)
  show "loadMigrationData (Fulfilled r) = Inr d"
    if "ok r \<and> json r = Fulfilled (Some d) \<and> graph d = Some gr \<and>
        nodes gr = Some ns \<and> links gr = Some ls"
    using that by (simp add: loadMigrationData_def load_try_def valid_structure_def)
  show "\<exists>d'. loadMigrationData fetched = Inr d'"
    by (cases "load_try fetched") (simp_all add: loadMigrationData_def)
  show "empty_structure =
     \<lparr>graph = Some \<lparr>nodes = Some [], links = Some []\<rparr>,
      metadata = [], bridge_communities = [], summary_stats = []\<rparr>"
    by (simp add: empty_structure_def)
qed

theorem loadMigrationData_never_fails_witness:
  "loadMigrationData (Rejected (Error ''network'')) = Inr empty_structure \<and>
   loadMigrationData (Fulfilled \<lparr>ok = False, json = Fulfilled (Some sample_data)\<rparr>) =
     Inr empty_structure \<and>
   loadMigrationData
     (Fulfilled \<lparr>ok = True,
                 json = Fulfilled (Some (sample_data\<lparr>graph :=
                          Some \<lparr>nodes = Some nodes_ABC, links = None\<rparr>\<rparr>))\<rparr>) =
     Inr empty_structure \<and>
   loadMigrationData (Fulfilled \<lparr>ok = True, json = Fulfilled (Some empty_sample)\<rparr>) =
     Inr empty_sample"
proof -
  have "loadMigrationData (Rejected (Error ''network'')) = Inr empty_structure"
    using loadMigrationData_never_fails [of "Error ''network''"] by blast
  moreover have
    "loadMigrationData (Fulfilled \<lparr>ok = False, json = Fulfilled (Some sample_data)\<rparr>) =
       Inr empty_structure"
    using loadMigrationData_never_fails
      [of _ "\<lparr>ok = False, json = Fulfilled (Some sample_data)\<rparr>"]
    by simp
  moreover have
    "loadMigrationData
       (Fulfilled \<lparr>ok = True,
                   json = Fulfilled (Some (sample_data\<lparr>graph :=
                            Some \<lparr>nodes = Some nodes_ABC, links = None\<rparr>\<rparr>))\<rparr>) =
       Inr empty_structure"
    using loadMigrationData_never_fails
      [of _ "\<lparr>ok = True,
              json = Fulfilled (Some (sample_data\<lparr>graph :=
                       Some \<lparr>nodes = Some nodes_ABC, links = None\<rparr>\<rparr>))\<rparr>"
          "sample_data\<lparr>graph := Some \<lparr>nodes = Some nodes_ABC, links = None\<rparr>\<rparr>"
          "\<lparr>nodes = Some nodes_ABC, links = None\<rparr>"]
    by simp
  moreover have
    "loadMigrationData (Fulfilled \<lparr>ok = True, json = Fulfilled (Some empty_sample)\<rparr>) =
       Inr empty_sample"
    using loadMigrationData_never_fails
      [of _ "\<lparr>ok = True, json = Fulfilled (Some empty_sample)\<rparr>" empty_sample
          "\<lparr>nodes = Some [], links = Some []\<rparr>" "[]" "[]"]
    by (simp add: empty_sample_def)
  ultimately show ?thesis by blast
qed

end
